theory Spec2Isabelle
  imports Main "HOL-Library.Multiset" "HOL-Library.Product_Lexorder"
begin

section \<open>The CP-SAT interface used by \<open>tt_schedule_or.py\<close>\<close>

text \<open>
  The script builds a \<open>cp_model.CpModel\<close>, hands it to \<open>cp_model.CpSolver\<close> and reads
  the status and the values of the Boolean variables back. The solver is an external
  collaborator: it is a parameter of the embedding, and nothing is assumed about it
  except where a theorem says so.

  A Boolean variable is identified by the dictionary it is stored in and its key:
  \<open>X i j r\<close> is \<open>x[(i, j, r)]\<close> and \<open>Y i r\<close> is \<open>y[(i, r)]\<close>.
\<close>

datatype bool_var = X int int int | Y int int

text \<open>
  The three shapes of linear constraint that the script passes to \<open>model.Add\<close>:
  \<open>sum(vs) == c\<close>, \<open>sum(vs) == v\<close> and \<open>sum(vs) >= c\<close>.
\<close>

datatype constraint =
    SumEq "bool_var list" int
  | SumEqVar "bool_var list" bool_var
  | SumGe "bool_var list" int

record CpModel =
  variables :: "bool_var list"
  constraints :: "constraint list"

text \<open>The status codes of \<open>CpSolver.Solve\<close>.\<close>

datatype CpSolverStatus = UNKNOWN | MODEL_INVALID | FEASIBLE | INFEASIBLE | OPTIMAL

text \<open>
  \<open>solver.parameters\<close>: \<open>max_time_in_seconds\<close> is only assigned when
  \<open>time_limit_s is not None\<close>; \<open>None\<close> stands for the solver's default. The type of the
  time limit is left open, the script only passes it through.
\<close>

record 't parameters =
  max_time_in_seconds :: "'t option"
  num_search_workers :: int

text \<open>What the script reads back from the solver: the status and \<open>solver.Value\<close>.\<close>

record SolveResult =
  status :: CpSolverStatus
  Value :: "bool_var \<Rightarrow> bool"

type_synonym 't solver = "'t parameters \<Rightarrow> CpModel \<Rightarrow> SolveResult"

subsection \<open>Meaning of a model\<close>

definition lit :: "(bool_var \<Rightarrow> bool) \<Rightarrow> bool_var \<Rightarrow> int" where
  "lit a v = (if a v then 1 else 0)"

definition lin_sum :: "(bool_var \<Rightarrow> bool) \<Rightarrow> bool_var list \<Rightarrow> int" where
  "lin_sum a vs = sum_list (map (lit a) vs)"

fun holds :: "(bool_var \<Rightarrow> bool) \<Rightarrow> constraint \<Rightarrow> bool" where
  "holds a (SumEq vs c) = (lin_sum a vs = c)"
| "holds a (SumEqVar vs v) = (lin_sum a vs = lit a v)"
| "holds a (SumGe vs c) = (lin_sum a vs \<ge> c)"

definition satisfies :: "(bool_var \<Rightarrow> bool) \<Rightarrow> CpModel \<Rightarrow> bool" where
  "satisfies a model = list_all (holds a) (constraints model)"

section \<open>\<open>schedule_round_robin\<close>\<close>

text \<open>Python's \<open>range(n)\<close> and \<open>range(a, b)\<close> on integers; empty when the bound is not above the start.\<close>

definition range_int :: "int \<Rightarrow> int list" where
  "range_int n = [0..n - 1]"

definition range2 :: "int \<Rightarrow> int \<Rightarrow> int list" where
  "range2 a b = [a..b - 1]"

text \<open>\<open>M = n * (n - 1) // 2\<close>; Python's \<open>//\<close> and HOL's \<open>div\<close> both round down.\<close>

definition M :: "int \<Rightarrow> int" where
  "M n = n * (n - 1) div 2"

text \<open>\<open>pairs = [(i, j) for i in range(n) for j in range(i + 1, n)]\<close>\<close>

definition pairs :: "int \<Rightarrow> (int \<times> int) list" where
  "pairs n = [(i, j). i \<leftarrow> range_int n, j \<leftarrow> range2 (i + 1) n]"

text \<open>The items of the dictionary \<open>x\<close>, in insertion order (the keys are distinct).\<close>

definition x_items :: "int \<Rightarrow> ((int \<times> int \<times> int) \<times> bool_var) list" where
  "x_items n = [((i, j, r), X i j r). (i, j) \<leftarrow> pairs n, r \<leftarrow> range_int (M n)]"

definition y_items :: "int \<Rightarrow> ((int \<times> int) \<times> bool_var) list" where
  "y_items n = [((i, r), Y i r). i \<leftarrow> range_int n, r \<leftarrow> range_int (M n)]"

text \<open>1) Each match exactly once.\<close>

definition match_once :: "int \<Rightarrow> constraint list" where
  "match_once n = [SumEq [X i j r. r \<leftarrow> range_int (M n)] 1. (i, j) \<leftarrow> pairs n]"

text \<open>2) Only one match per round.\<close>

definition one_per_round :: "int \<Rightarrow> constraint list" where
  "one_per_round n = [SumEq [X i j r. (i, j) \<leftarrow> pairs n] 1. r \<leftarrow> range_int (M n)]"

text \<open>3) Link \<open>x\<close> and \<open>y\<close>.\<close>

definition link_xy :: "int \<Rightarrow> constraint list" where
  "link_xy n =
     [SumEqVar [X a b r. (a, b) \<leftarrow> pairs n, a = i \<or> b = i] (Y i r).
        i \<leftarrow> range_int n, r \<leftarrow> range_int (M n)]"

text \<open>4) Idle-time constraint: in any window of \<open>T + 1\<close> rounds each player plays at least once.\<close>

definition idle_time :: "int \<Rightarrow> int \<Rightarrow> constraint list" where
  "idle_time n T =
     [SumGe [Y i (start + s). s \<leftarrow> range_int (T + 1)] 1.
        i \<leftarrow> range_int n, start \<leftarrow> range_int (M n - T)]"

text \<open>The model that one iteration of the loop builds for the candidate \<open>T\<close>.\<close>

definition build_model :: "int \<Rightarrow> int \<Rightarrow> CpModel" where
  "build_model n T =
     \<lparr> variables = map snd (x_items n) @ map snd (y_items n),
       constraints = match_once n @ one_per_round n @ link_xy n @ idle_time n T \<rparr>"

text \<open>
  The extraction of the schedule from the solver's values, before sorting:
  one triple \<open>(r + 1, i + 1, j + 1)\<close> for every item of \<open>x\<close> whose value is true.
\<close>

definition extract_schedule :: "int \<Rightarrow> (bool_var \<Rightarrow> bool) \<Rightarrow> (int \<times> int \<times> int) list" where
  "extract_schedule n val = [(r + 1, i + 1, j + 1). ((i, j, r), var) \<leftarrow> x_items n, val var]"

definition is_sat :: "CpSolverStatus \<Rightarrow> bool" where
  "is_sat st = (st = OPTIMAL \<or> st = FEASIBLE)"

text \<open>
  The loop \<open>for T in range(M)\<close>. Besides the result it returns the models that were
  passed to \<open>solver.Solve\<close>, in order, which makes the calls of the external solver
  observable. \<open>None\<close> is the \<open>return None\<close> after the loop.
\<close>

fun search ::
  "'t solver \<Rightarrow> 't parameters \<Rightarrow> int \<Rightarrow> int list
     \<Rightarrow> CpModel list \<times> (int \<times> (int \<times> int \<times> int) list) option" where
  "search solve ps n [] = ([], None)"
| "search solve ps n (T # Ts) =
     (let model = build_model n T;
          res = solve ps model
      in if is_sat (status res)
         then ([model], Some (T, sort (extract_schedule n (Value res))))
         else (case search solve ps n Ts of (ms, out) \<Rightarrow> (model # ms, out)))"

definition solver_parameters :: "'t option \<Rightarrow> int \<Rightarrow> 't parameters" where
  "solver_parameters time_limit_s num_workers =
     \<lparr> max_time_in_seconds = time_limit_s, num_search_workers = num_workers \<rparr>"

definition run ::
  "'t solver \<Rightarrow> int \<Rightarrow> 't option \<Rightarrow> int
     \<Rightarrow> CpModel list \<times> (int \<times> (int \<times> int \<times> int) list) option" where
  "run solve n time_limit_s num_workers =
     search solve (solver_parameters time_limit_s num_workers) n (range_int (M n))"

definition schedule_round_robin ::
  "'t solver \<Rightarrow> int \<Rightarrow> 't option \<Rightarrow> int \<Rightarrow> (int \<times> (int \<times> int \<times> int) list) option" where
  "schedule_round_robin solve n time_limit_s num_workers = snd (run solve n time_limit_s num_workers)"

definition solver_calls :: "'t solver \<Rightarrow> int \<Rightarrow> 't option \<Rightarrow> int \<Rightarrow> CpModel list" where
  "solver_calls solve n time_limit_s num_workers = fst (run solve n time_limit_s num_workers)"

text \<open>What the solver answers in the iteration for the candidate \<open>T\<close>.\<close>

definition answer :: "'t solver \<Rightarrow> 't option \<Rightarrow> int \<Rightarrow> int \<Rightarrow> int \<Rightarrow> SolveResult" where
  "answer solve time_limit_s num_workers n T =
     solve (solver_parameters time_limit_s num_workers) (build_model n T)"

text \<open>
  The contract of a solver answer for the candidate \<open>T\<close>: the values reported with
  \<open>OPTIMAL\<close> or \<open>FEASIBLE\<close> satisfy the model, and \<open>INFEASIBLE\<close> is only reported for a
  model that no assignment satisfies.
\<close>

definition sound_answer :: "int \<Rightarrow> int \<Rightarrow> SolveResult \<Rightarrow> bool" where
  "sound_answer n T res =
     ((is_sat (status res) \<longrightarrow> satisfies (Value res) (build_model n T)) \<and>
      (status res = INFEASIBLE \<longrightarrow> (\<forall>a. \<not> satisfies a (build_model n T))))"

section \<open>Solver stubs and sample assignments\<close>

text \<open>A solver that answers every model with the same status.\<close>

definition solver_always :: "CpSolverStatus \<Rightarrow> 't solver" where
  "solver_always st ps m = \<lparr> status = st, Value = (\<lambda>v. False) \<rparr>"

text \<open>A solver that reports every variable true; its answer is right for two participants.\<close>

definition solver_all_true :: "'t solver" where
  "solver_all_true ps m = \<lparr> status = OPTIMAL, Value = (\<lambda>v. True) \<rparr>"

text \<open>
  The schedule (0,1), (0,2), (1,2) for three participants, as an assignment: nobody sits
  out two rounds in a row.
\<close>

definition played_3 :: "bool_var \<Rightarrow> bool" where
  "played_3 v =
     (case v of
        X i j r \<Rightarrow> (i, j, r) \<in> set [(0, 1, 0), (0, 2, 1), (1, 2, 2)]
      | Y p r \<Rightarrow> (p, r) \<in> set [(0, 0), (1, 0), (0, 1), (2, 1), (1, 2), (2, 2)])"

text \<open>A solver for three participants that decides every candidate correctly.\<close>

definition solver_min_3 :: "'t solver" where
  "solver_min_3 ps m =
     \<lparr> status = (if m = build_model 3 0 then INFEASIBLE else FEASIBLE), Value = played_3 \<rparr>"

text \<open>
  A solver for three participants that runs out of time on the candidates 0 and 1 and
  finds the schedule for the candidate 2.
\<close>

definition solver_late_3 :: "'t solver" where
  "solver_late_3 ps m =
     \<lparr> status = (if m = build_model 3 2 then FEASIBLE else UNKNOWN), Value = played_3 \<rparr>"

text \<open>
  A solver for three participants that finds no schedule: it refutes the candidate 0, runs
  out of time on the candidate 1 and rejects the model of the candidate 2.
\<close>

definition solver_mixed_3 :: "'t solver" where
  "solver_mixed_3 ps m =
     \<lparr> status = (if m = build_model 3 0 then INFEASIBLE
                 else if m = build_model 3 1 then UNKNOWN else MODEL_INVALID),
       Value = (\<lambda>v. False) \<rparr>"

section \<open>Ranges and pairs\<close>

lemma set_range_int: "set (range_int n) = {0..<n}"
  by (auto simp: range_int_def)

lemma distinct_range_int: "distinct (range_int n)"
  by (simp add: range_int_def)

lemma sorted_range_int: "sorted (range_int n)"
  by (simp add: range_int_def)

lemma length_range_int: "length (range_int n) = nat n"
  by (simp add: range_int_def)

lemma set_range2: "set (range2 a b) = {a..<b}"
  by (auto simp: range2_def)

lemma distinct_range2: "distinct (range2 a b)"
  by (simp add: range2_def)

lemma set_pairs: "set (pairs n) = {(i, j). 0 \<le> i \<and> i < j \<and> j < n}"
  by (force simp: pairs_def set_range_int set_range2)

lemma distinct_concat_map_Pair:
  "distinct xs \<Longrightarrow> (\<And>x. distinct (f x)) \<Longrightarrow> distinct (concat (map (\<lambda>x. map (Pair x) (f x)) xs))"
  by (induction xs) (auto simp: distinct_map inj_on_def)

lemma distinct_pairs: "distinct (pairs n)"
  unfolding pairs_def using distinct_concat_map_Pair[OF distinct_range_int, of "\<lambda>i. range2 (i + 1) n" n]
  by (simp add: distinct_range2)

lemma sum_list_shift: "(\<Sum>i\<leftarrow>xs. (a + 1 :: int) - i) = (\<Sum>i\<leftarrow>xs. a - i) + int (length xs)"
  by (induction xs) auto

lemma int_sum_list: "int (sum_list xs) = sum_list (map int xs)"
  by (induction xs) auto

lemma gauss_upto: "(\<Sum>i\<leftarrow>[0..int k - 1]. int k - 1 - i) = int k * (int k - 1) div 2"
proof (induction k)
  case 0
  then show ?case by simp
next
  case (Suc k)
  have split: "[0..int (Suc k) - 1] = [0..int k - 1] @ [int k]"
    using upto_rec2 by auto
  have "(\<Sum>i\<leftarrow>[0..int (Suc k) - 1]. int (Suc k) - 1 - i)
      = (\<Sum>i\<leftarrow>[0..int k - 1]. (int k - 1 + 1) - i)"
    unfolding split by (simp add: algebra_simps)
  also have "\<dots> = (\<Sum>i\<leftarrow>[0..int k - 1]. int k - 1 - i) + int k"
    unfolding sum_list_shift by simp
  also have "\<dots> = int k * (int k - 1) div 2 + int k"
    using Suc.IH by simp
  also have "\<dots> = (int k * (int k - 1) + int k * 2) div 2"
    by simp
  also have "int k * (int k - 1) + int k * 2 = int (Suc k) * (int (Suc k) - 1)"
    by (simp add: algebra_simps)
  finally show ?case .
qed

lemma length_pairs: "0 \<le> n \<Longrightarrow> int (length (pairs n)) = M n"
proof -
  assume n: "0 \<le> n"
  have "int (length (pairs n)) = (\<Sum>i\<leftarrow>[0..n - 1]. int (nat (n - 1 - i)))"
    by (simp add: pairs_def range_int_def range2_def length_concat comp_def int_sum_list algebra_simps)
  also have "\<dots> = (\<Sum>i\<leftarrow>[0..n - 1]. n - 1 - i)"
    by (rule arg_cong[where f = sum_list], rule map_cong) auto
  also have "\<dots> = n * (n - 1) div 2"
    using gauss_upto[of "nat n"] n by simp
  finally show ?thesis by (simp add: M_def)
qed

lemma lin_sum_map: "lin_sum a (map f xs) = int (length (filter (\<lambda>x. a (f x)) xs))"
  by (induction xs) (auto simp: lin_sum_def lit_def)

lemma concat_map_if: "concat (map (\<lambda>x. if P x then [f x] else []) xs) = map f (filter P xs)"
  by (induction xs) auto

lemma satisfies_build_model:
  "satisfies a (build_model n T) \<longleftrightarrow>
     list_all (holds a) (match_once n) \<and> list_all (holds a) (one_per_round n) \<and>
     list_all (holds a) (link_xy n) \<and> list_all (holds a) (idle_time n T)"
  by (simp add: satisfies_def build_model_def)

lemma match_once_holds:
  "list_all (holds a) (match_once n) \<longleftrightarrow>
     (\<forall>p\<in>set (pairs n). length (filter (\<lambda>r. a (X (fst p) (snd p) r)) (range_int (M n))) = 1)"
  by (auto simp: match_once_def list_all_iff lin_sum_map)

lemma one_per_round_holds:
  "list_all (holds a) (one_per_round n) \<longleftrightarrow>
     (\<forall>r\<in>set (range_int (M n)). length (filter (\<lambda>p. a (X (fst p) (snd p) r)) (pairs n)) = 1)"
  by (auto simp: one_per_round_def list_all_iff lin_sum_map case_prod_beta)

lemma concat_map_if_prod:
  "concat (map (\<lambda>(a, b). if P a b then [f a b] else []) xs)
     = map (\<lambda>p. f (fst p) (snd p)) (filter (\<lambda>p. P (fst p) (snd p)) xs)"
  by (induction xs) auto

lemma one_le_length_filter: "Suc 0 \<le> length (filter P xs) \<longleftrightarrow> (\<exists>x\<in>set xs. P x)"
  by (induction xs) auto

lemma link_xy_holds:
  "list_all (holds a) (link_xy n) \<longleftrightarrow>
     (\<forall>i\<in>set (range_int n). \<forall>r\<in>set (range_int (M n)).
        int (length (filter (\<lambda>p. (fst p = i \<or> snd p = i) \<and> a (X (fst p) (snd p) r)) (pairs n)))
          = lit a (Y i r))"
  by (auto simp: link_xy_def list_all_iff lin_sum_map concat_map_if_prod)

lemma idle_time_holds:
  "list_all (holds a) (idle_time n T) \<longleftrightarrow>
     (\<forall>i\<in>set (range_int n). \<forall>start\<in>set (range_int (M n - T)).
        \<exists>s\<in>set (range_int (T + 1)). a (Y i (start + s)))"
  by (auto simp: idle_time_def list_all_iff lin_sum_map one_le_length_filter)

lemma length_filter_1_iff:
  "distinct xs \<Longrightarrow> length (filter P xs) = 1 \<longleftrightarrow> (\<exists>!x. x \<in> set xs \<and> P x)"
proof -
  assume "distinct xs"
  then have "length (filter P xs) = card {x \<in> set xs. P x}"
    by (metis distinct_card distinct_filter set_filter)
  moreover have "card {x \<in> set xs. P x} = 1 \<longleftrightarrow> (\<exists>!x. x \<in> set xs \<and> P x)"
    using is_singleton_iff_ex1[of "{x \<in> set xs. P x}"] by (simp add: is_singleton_altdef)
  ultimately show ?thesis by simp
qed

lemma search_finds:
  "(\<forall>T'\<in>set pre. \<not> is_sat (status (solve ps (build_model n T')))) \<Longrightarrow>
   is_sat (status (solve ps (build_model n T))) \<Longrightarrow>
   search solve ps n (pre @ T # post) =
     (map (build_model n) (pre @ [T]),
      Some (T, sort (extract_schedule n (Value (solve ps (build_model n T))))))"
  by (induction pre) (simp_all add: Let_def)

lemma search_exhausts:
  "(\<forall>T\<in>set Ts. \<not> is_sat (status (solve ps (build_model n T)))) \<Longrightarrow>
   search solve ps n Ts = (map (build_model n) Ts, None)"
  by (induction Ts) (simp_all add: Let_def)

lemma search_Some_split:
  "search solve ps n Ts = (ms, Some (T, s)) \<Longrightarrow>
   \<exists>pre post. Ts = pre @ T # post \<and>
     (\<forall>T'\<in>set pre. \<not> is_sat (status (solve ps (build_model n T')))) \<and>
     is_sat (status (solve ps (build_model n T)))"
proof (induction Ts arbitrary: ms)
  case Nil
  then show ?case by simp
next
  case (Cons T0 Ts)
  show ?case
  proof (cases "is_sat (status (solve ps (build_model n T0)))")
    case True
    with Cons.prems have "T = T0" by (simp add: Let_def)
    with True show ?thesis by (intro exI[of _ "[]"] exI[of _ Ts]) simp
  next
    case False
    with Cons.prems obtain ms' where "search solve ps n Ts = (ms', Some (T, s))"
      by (auto simp: Let_def split: prod.splits)
    from Cons.IH[OF this] obtain pre post where
      "Ts = pre @ T # post"
      "\<forall>T'\<in>set pre. \<not> is_sat (status (solve ps (build_model n T')))"
      "is_sat (status (solve ps (build_model n T)))" by blast
    with False show ?thesis
      by (intro exI[of _ "T0 # pre"] exI[of _ post]) simp
  qed
qed

lemma upto_append_Cons:
  assumes "[i..k] = pre @ T # post"
  shows "pre = [i..T - 1]"
proof -
  have "sorted (pre @ T # post)" "distinct (pre @ T # post)"
    using assms[symmetric] by simp_all
  moreover have "set (pre @ T # post) = {i..k}"
    using assms[symmetric] by simp
  ultimately have "set pre = {i..T - 1}"
  proof -
    assume srt: "sorted (pre @ T # post)" and dst: "distinct (pre @ T # post)"
      and st: "set (pre @ T # post) = {i..k}"
    have lt: "\<forall>x\<in>set pre. x < T"
      using srt dst by (fastforce simp: sorted_append)
    have gt: "\<forall>x\<in>set post. T < x"
      using srt dst by (fastforce simp: sorted_append)
    have T: "i \<le> T" "T \<le> k"
      using st by auto
    show ?thesis
    proof (rule set_eqI)
      fix x
      show "x \<in> set pre \<longleftrightarrow> x \<in> {i..T - 1}"
      proof
        assume x: "x \<in> set pre"
        then have "x \<in> {i..k}" using st by auto
        with x lt show "x \<in> {i..T - 1}" by auto
      next
        assume x: "x \<in> {i..T - 1}"
        then have "x \<in> set (pre @ T # post)" using st T by auto
        with x gt show "x \<in> set pre" by auto
      qed
    qed
  qed
  moreover have "sorted pre" "distinct pre"
    using \<open>sorted (pre @ T # post)\<close> \<open>distinct (pre @ T # post)\<close> by (simp_all add: sorted_append)
  ultimately show ?thesis
    using sorted_list_of_set.idem_if_sorted_distinct by fastforce
qed

lemma extract_schedule_alt:
  "extract_schedule n a =
     concat (map (\<lambda>p. map (\<lambda>r. (r + 1, fst p + 1, snd p + 1))
                        (filter (\<lambda>r. a (X (fst p) (snd p) r)) (range_int (M n)))) (pairs n))"
proof -
  have "concat (map (\<lambda>((i, j, r), var). if a var then [(r + 1, i + 1, j + 1)] else [])
           (concat (map (\<lambda>(i, j). map (\<lambda>r. ((i, j, r), X i j r)) rs) ps)))
      = concat (map (\<lambda>p. map (\<lambda>r. (r + 1, fst p + 1, snd p + 1))
                        (filter (\<lambda>r. a (X (fst p) (snd p) r)) rs)) ps)" for rs ps
  proof (induction ps)
    case Nil
    then show ?case by simp
  next
    case (Cons p ps)
    then show ?case by (simp add: case_prod_beta comp_def concat_map_if)
  qed
  then show ?thesis by (simp add: extract_schedule_def x_items_def)
qed

lemma map_snd_concat_const:
  "map snd (concat (map (\<lambda>p. map (\<lambda>r. (f r, F p)) (fl p)) xs))
     = concat (map (\<lambda>p. replicate (length (fl p)) (F p)) xs)"
  by (induction xs) (simp_all add: comp_def map_replicate_const)

lemma map_fst_concat_const:
  "map fst (concat (map (\<lambda>p. map (\<lambda>r. (f r, F p)) (fl p)) xs))
     = concat (map (\<lambda>p. map f (fl p)) xs)"
  by (induction xs) (simp_all add: comp_def)

lemma concat_replicate_1:
  "(\<forall>p\<in>set xs. length (fl p) = 1) \<Longrightarrow> concat (map (\<lambda>p. replicate (length (fl p)) (F p)) xs) = map F xs"
  by (induction xs) simp_all

lemma mset_concat_append:
  "mset (concat (map (\<lambda>r. g r @ h r) rs)) = mset (concat (map g rs)) + mset (concat (map h rs))"
  by (induction rs) simp_all

lemma mset_concat_swap:
  "mset (concat (map (\<lambda>p. map f (filter (Q p) rs)) ps))
     = mset (concat (map (\<lambda>r. replicate (length (filter (\<lambda>p. Q p r) ps)) (f r)) rs))"
proof (induction ps)
  case Nil
  then show ?case by (induction rs) simp_all
next
  case (Cons p ps)
  have "(\<lambda>r. replicate (length (filter (\<lambda>p. Q p r) (p # ps))) (f r))
      = (\<lambda>r. (if Q p r then [f r] else []) @ replicate (length (filter (\<lambda>p. Q p r) ps)) (f r))"
    by (rule ext) simp
  then show ?case
    using Cons by (simp add: mset_concat_append concat_map_if)
qed

lemma extract_pairs:
  assumes "satisfies a (build_model n T)"
  shows "map snd (extract_schedule n a) = map (\<lambda>p. (fst p + 1, snd p + 1)) (pairs n)"
proof -
  have "\<forall>p\<in>set (pairs n). length (filter (\<lambda>r. a (X (fst p) (snd p) r)) (range_int (M n))) = 1"
    using assms by (simp add: satisfies_build_model match_once_holds)
  then show ?thesis
    unfolding extract_schedule_alt map_snd_concat_const by (rule concat_replicate_1)
qed

lemma extract_rounds:
  assumes "satisfies a (build_model n T)"
  shows "mset (map fst (extract_schedule n a)) = mset (map (\<lambda>r. r + 1) (range_int (M n)))"
proof -
  have one: "\<forall>r\<in>set (range_int (M n)). length (filter (\<lambda>p. a (X (fst p) (snd p) r)) (pairs n)) = 1"
    using assms by (simp add: satisfies_build_model one_per_round_holds)
  have "mset (map fst (extract_schedule n a))
      = mset (concat (map (\<lambda>r. replicate (length (filter (\<lambda>p. a (X (fst p) (snd p) r)) (pairs n))) (r + 1))
                 (range_int (M n))))"
    unfolding extract_schedule_alt map_fst_concat_const by (rule mset_concat_swap)
  also have "\<dots> = mset (map (\<lambda>r. r + 1) (range_int (M n)))"
    using concat_replicate_1[of "range_int (M n)" "\<lambda>r. filter (\<lambda>p. a (X (fst p) (snd p) r)) (pairs n)" "\<lambda>r. r + 1"] one
    by simp
  finally show ?thesis .
qed

lemma sorted_map_fst:
  fixes xs :: "('a::linorder \<times> 'b::linorder) list"
  shows "sorted xs \<Longrightarrow> sorted (map fst xs)"
  by (induction xs) (auto simp: less_eq_prod_def)

lemma map_Suc_range_int: "map (\<lambda>r. r + 1) (range_int m) = [1..m]"
  unfolding range_int_def by (rule nth_equalityI) auto

lemma sorted_schedule_rounds:
  assumes "satisfies a (build_model n T)"
  shows "map fst (sort (extract_schedule n a)) = [1..M n]"
proof -
  have "sorted (map fst (sort (extract_schedule n a)))"
    by (rule sorted_map_fst) simp
  moreover have "mset (map fst (sort (extract_schedule n a))) = mset [1..M n]"
    using extract_rounds[OF assms] by (simp add: map_Suc_range_int)
  ultimately show ?thesis
    by (metis properties_for_sort sort_upto)
qed

lemma sorted_schedule_pairs:
  assumes "satisfies a (build_model n T)"
  shows "mset (map snd (sort (extract_schedule n a))) = mset (map (\<lambda>p. (fst p + 1, snd p + 1)) (pairs n))"
  using extract_pairs[OF assms] by (metis (no_types, lifting) mset_map mset_sort)

section \<open>Small inputs and the order of the result\<close>

lemma M_small: "0 \<le> n \<Longrightarrow> n < 2 \<Longrightarrow> M n = 0"
proof -
  assume "0 \<le> n" "n < 2"
  then have "n = 0 \<or> n = 1" by auto
  then show ?thesis by (auto simp: M_def)
qed

lemma run_small: "0 \<le> n \<Longrightarrow> n < 2 \<Longrightarrow> run solve n tlim nw = ([], None)"
  by (simp add: run_def M_small range_int_def)

text \<open>
  C10. For \<open>n = 0\<close> and \<open>n = 1\<close> the round count \<open>M\<close> is 0, so \<open>range(M)\<close> is empty: the loop
  body never runs, no model is passed to the solver, and the function returns \<open>None\<close>.
  The embedding has no exceptional result, as the code has no statement that can raise on
  these inputs.
\<close>

theorem small_n_returns_None:
  assumes "0 \<le> n" and "n < 2"
  shows "M n = 0 \<and> range_int (M n) = []
       \<and> schedule_round_robin solve n time_limit_s num_workers = None
       \<and> solver_calls solve n time_limit_s num_workers = []"
  using assms by (simp add: M_small run_small schedule_round_robin_def solver_calls_def range_int_def)

theorem small_n_returns_None_witness:
  "(0::int) \<le> 1 \<and> (1::int) < 2 \<and> M 1 = 0 \<and> range_int (M 1) = []
     \<and> schedule_round_robin (solver_all_true :: nat solver) 1 (Some 30) 8 = None
     \<and> solver_calls (solver_all_true :: nat solver) 1 (Some 30) 8 = []"
  using small_n_returns_None[of 1 "solver_all_true :: nat solver" "Some 30" 8]
  by (simp add: range_int_def)

lemma run_Some_sorted:
  "search solve ps n Ts = (ms, Some (T, sched)) \<Longrightarrow> \<exists>a. sched = sort (extract_schedule n a)"
proof (induction Ts arbitrary: ms)
  case Nil
  then show ?case by simp
next
  case (Cons T0 Ts)
  then show ?case
    by (auto simp: Let_def split: if_splits prod.splits)
qed

lemma result_is_sort:
  assumes "schedule_round_robin solve n tlim nw = Some (T, sched)"
  shows "\<exists>a. sched = sort (extract_schedule n a)"
proof -
  obtain ms where "search solve (solver_parameters tlim nw) n (range_int (M n)) = (ms, Some (T, sched))"
    using assms by (cases "run solve n tlim nw") (simp add: schedule_round_robin_def run_def)
  then show ?thesis by (rule run_Some_sorted)
qed

lemma sorted_triples_explicit:
  fixes xs :: "(int \<times> int \<times> int) list"
  shows "sorted xs \<longleftrightarrow>
     sorted_wrt (\<lambda>(r, a, b) (r', a', b'). r < r' \<or> (r = r' \<and> (a < a' \<or> (a = a' \<and> b \<le> b')))) xs"
  by (rule arg_cong[where f = "\<lambda>R. sorted_wrt R xs"])
     (auto simp: fun_eq_iff less_eq_prod_def)

text \<open>
  C9. Whenever \<open>schedule_round_robin\<close> returns a schedule, the list of triples is sorted in
  ascending lexicographic order (round, then first participant, then second), so the
  rounds appear in increasing order.
\<close>

theorem schedule_sorted:
  assumes "schedule_round_robin solve n time_limit_s num_workers = Some (T, sched)"
  shows "sorted sched
       \<and> sorted_wrt (\<lambda>(r, a, b) (r', a', b'). r < r' \<or> (r = r' \<and> (a < a' \<or> (a = a' \<and> b \<le> b')))) sched
       \<and> sorted (map fst sched)"
proof -
  obtain a where "sched = sort (extract_schedule n a)"
    using result_is_sort[OF assms] by blast
  then have "sorted sched" by simp
  then show ?thesis
    using sorted_triples_explicit[of sched] sorted_map_fst[of sched] by simp
qed

lemma late_3_result:
  "schedule_round_robin (solver_late_3 :: nat solver) 3 (Some 30) 8
     = Some (2, [(1, 1, 2), (2, 1, 3), (3, 2, 3)])"
  by code_simp

theorem schedule_sorted_witness:
  "schedule_round_robin (solver_late_3 :: nat solver) 3 (Some 30) 8
     = Some (2, [(1, 1, 2), (2, 1, 3), (3, 2, 3)])
   \<and> sorted [(1, 1, 2), (2, 1, 3), (3, 2, 3 :: int) :: int \<times> int \<times> int]
   \<and> sorted (map fst [(1, 1, 2), (2, 1, 3), (3, 2, 3 :: int) :: int \<times> int \<times> int])"
  using schedule_sorted[OF late_3_result] late_3_result by simp

section \<open>The constraints of the model\<close>

lemma idle_time_mono:
  assumes "T \<le> T'" and "list_all (holds a) (idle_time n T)"
  shows "list_all (holds a) (idle_time n T')"
  unfolding idle_time_holds
proof (intro ballI)
  fix i start
  assume i: "i \<in> set (range_int n)" and st: "start \<in> set (range_int (M n - T'))"
  from st assms(1) have "start \<in> set (range_int (M n - T))"
    by (auto simp: set_range_int)
  with assms(2) i obtain s where "s \<in> set (range_int (T + 1))" "a (Y i (start + s))"
    unfolding idle_time_holds by blast
  with assms(1) show "\<exists>s\<in>set (range_int (T' + 1)). a (Y i (start + s))"
    by (auto simp: set_range_int)
qed

text \<open>
  C8. Feasibility is monotone in the gap bound: an assignment that satisfies the window
  constraints for the bound \<open>T\<close> satisfies those for every \<open>T' \<ge> T\<close>, and an assignment
  that satisfies the whole model for \<open>T\<close> satisfies the whole model for \<open>T'\<close>.
\<close>

theorem feasibility_monotone:
  assumes "2 \<le> n" and "0 \<le> T" and "T \<le> T'"
  shows "(list_all (holds a) (idle_time n T) \<longrightarrow> list_all (holds a) (idle_time n T'))
       \<and> (satisfies a (build_model n T) \<longrightarrow> satisfies a (build_model n T'))"
  using idle_time_mono[OF assms(3)] by (simp add: satisfies_build_model)

lemma played_3_sat_1: "satisfies played_3 (build_model 3 1)"
  by code_simp

lemma played_3_sat_2: "satisfies played_3 (build_model 3 2)"
  by code_simp

theorem feasibility_monotone_witness:
  "(2::int) \<le> 3 \<and> (0::int) \<le> 1 \<and> (1::int) \<le> 2
     \<and> satisfies played_3 (build_model 3 1) \<and> satisfies played_3 (build_model 3 2)"
  using feasibility_monotone[of 3 1 2 played_3] played_3_sat_1 by simp

lemma linked_iff:
  assumes sat: "satisfies a (build_model n T)"
    and p: "0 \<le> p" "p < n" and r: "0 \<le> r" "r < M n"
  shows "a (Y p r) \<longleftrightarrow> (\<exists>(i, j)\<in>set (pairs n). (i = p \<or> j = p) \<and> a (X i j r))"
proof -
  let ?fl = "filter (\<lambda>q. (fst q = p \<or> snd q = p) \<and> a (X (fst q) (snd q) r)) (pairs n)"
  have eq: "int (length ?fl) = lit a (Y p r)"
    using sat p r by (simp add: satisfies_build_model link_xy_holds set_range_int)
  have "a (Y p r) \<longleftrightarrow> ?fl \<noteq> []"
    using eq by (cases "a (Y p r)") (auto simp: lit_def)
  also have "\<dots> \<longleftrightarrow> (\<exists>q\<in>set (pairs n). (fst q = p \<or> snd q = p) \<and> a (X (fst q) (snd q) r))"
    by (simp add: filter_empty_conv)
  also have "\<dots> \<longleftrightarrow> (\<exists>(i, j)\<in>set (pairs n). (i = p \<or> j = p) \<and> a (X i j r))"
    by (simp add: case_prod_beta)
  finally show ?thesis .
qed

lemma link_constraint_mem:
  assumes "0 \<le> p" "p < n" "0 \<le> r" "r < M n"
  shows "SumEqVar [X i j r. (i, j) \<leftarrow> pairs n, i = p \<or> j = p] (Y p r) \<in> set (link_xy n)"
  unfolding link_xy_def using assms by (force simp: set_range_int)

text \<open>
  C7. For every participant \<open>p\<close> and round \<open>r\<close> the model contains the constraint that the
  sum of \<open>x[(i, j, r)]\<close> over exactly the pairs that contain \<open>p\<close> equals \<open>y[(p, r)]\<close>; in a
  satisfying assignment \<open>y[(p, r)]\<close> is true iff some match of \<open>p\<close> is played in round \<open>r\<close>.
\<close>

theorem participation_linkage:
  assumes "0 \<le> p" and "p < n" and "0 \<le> r" and "r < M n"
  shows "SumEqVar [X i j r. (i, j) \<leftarrow> pairs n, i = p \<or> j = p] (Y p r)
           \<in> set (constraints (build_model n T))
       \<and> set [X i j r. (i, j) \<leftarrow> pairs n, i = p \<or> j = p]
           = {X i j r |i j. (i, j) \<in> set (pairs n) \<and> (i = p \<or> j = p)}
       \<and> (\<forall>a. satisfies a (build_model n T) \<longrightarrow>
            lin_sum a [X i j r. (i, j) \<leftarrow> pairs n, i = p \<or> j = p] = lit a (Y p r)
          \<and> (a (Y p r) \<longleftrightarrow> (\<exists>(i, j)\<in>set (pairs n). (i = p \<or> j = p) \<and> a (X i j r))))"
proof (intro conjI allI impI)
  show "SumEqVar [X i j r. (i, j) \<leftarrow> pairs n, i = p \<or> j = p] (Y p r)
           \<in> set (constraints (build_model n T))"
    using link_constraint_mem[OF assms] by (simp add: build_model_def)
  show "set [X i j r. (i, j) \<leftarrow> pairs n, i = p \<or> j = p]
           = {X i j r |i j. (i, j) \<in> set (pairs n) \<and> (i = p \<or> j = p)}"
    by (force simp: concat_map_if_prod)
next
  fix a assume sat: "satisfies a (build_model n T)"
  have "holds a (SumEqVar [X i j r. (i, j) \<leftarrow> pairs n, i = p \<or> j = p] (Y p r))"
    using sat link_constraint_mem[OF assms]
    unfolding satisfies_build_model list_all_iff by blast
  then show "lin_sum a [X i j r. (i, j) \<leftarrow> pairs n, i = p \<or> j = p] = lit a (Y p r)"
    by simp
  show "a (Y p r) \<longleftrightarrow> (\<exists>(i, j)\<in>set (pairs n). (i = p \<or> j = p) \<and> a (X i j r))"
    by (rule linked_iff[OF sat assms])
qed

theorem participation_linkage_witness:
  "(0::int) \<le> 2 \<and> (2::int) < 3 \<and> (0::int) \<le> 1 \<and> 1 < M 3
     \<and> SumEqVar [X 0 2 1, X 1 2 1] (Y 2 1) \<in> set (constraints (build_model 3 1))
     \<and> lin_sum played_3 [X 0 2 1, X 1 2 1] = lit played_3 (Y 2 1)
     \<and> played_3 (Y 2 1)"
proof -
  have M3: "1 < M 3" by (simp add: M_def)
  have ps: "[X i j 1. (i, j) \<leftarrow> pairs 3, i = 2 \<or> j = 2] = [X 0 2 1, X 1 2 1]"
    by code_simp
  have "played_3 (Y 2 1)" by (simp add: played_3_def)
  then show ?thesis
    using participation_linkage[of 2 3 1 1, OF _ _ _ M3] played_3_sat_1 M3
    unfolding ps by simp
qed

lemma window_list: "0 \<le> T \<Longrightarrow> [Y p (start + s). s \<leftarrow> range_int (T + 1)] = map (Y p) [start..start + T]"
  unfolding range_int_def by (simp, rule nth_equalityI) auto

lemma idle_constraint_mem:
  assumes "0 \<le> p" "p < n" "0 \<le> start" "start < M n - T"
  shows "SumGe [Y p (start + s). s \<leftarrow> range_int (T + 1)] 1 \<in> set (idle_time n T)"
  unfolding idle_time_def using assms by (force simp: set_range_int)

text \<open>
  C2. For \<open>n \<ge> 2\<close> and \<open>0 \<le> T < M\<close>, the model for \<open>T\<close> contains, for every participant \<open>p\<close>
  and every start in \<open>[0, M - T)\<close>, the constraint that the sum of \<open>y[(p, r)]\<close> over the
  rounds \<open>start, \<dots>, start + T\<close> is at least 1; hence in a satisfying assignment every
  participant plays a match in every such window.
\<close>

theorem idle_gap_windows:
  assumes "2 \<le> n" and "0 \<le> T" and "T < M n"
    and "0 \<le> p" and "p < n" and "0 \<le> start" and "start < M n - T"
  shows "SumGe (map (Y p) [start..start + T]) 1 \<in> set (constraints (build_model n T))
       \<and> (\<forall>a. satisfies a (build_model n T) \<longrightarrow>
            (\<exists>r\<in>{start..start + T}. a (Y p r)
               \<and> (\<exists>(i, j)\<in>set (pairs n). (i = p \<or> j = p) \<and> a (X i j r))))"
proof (intro conjI allI impI)
  show "SumGe (map (Y p) [start..start + T]) 1 \<in> set (constraints (build_model n T))"
    using idle_constraint_mem[OF assms(4-7)] window_list[OF assms(2), of p start]
    by (simp add: build_model_def)
next
  fix a assume sat: "satisfies a (build_model n T)"
  then have "\<forall>i\<in>set (range_int n). \<forall>start\<in>set (range_int (M n - T)).
        \<exists>s\<in>set (range_int (T + 1)). a (Y i (start + s))"
    by (simp add: satisfies_build_model idle_time_holds)
  moreover have "p \<in> set (range_int n)" "start \<in> set (range_int (M n - T))"
    using assms(4-7) by (auto simp: set_range_int)
  ultimately obtain s where s: "s \<in> set (range_int (T + 1))" and y: "a (Y p (start + s))"
    by blast
  let ?r = "start + s"
  have r: "0 \<le> ?r" "?r < M n" "?r \<in> {start..start + T}"
    using s assms(6,7) by (auto simp: set_range_int)
  have "\<exists>(i, j)\<in>set (pairs n). (i = p \<or> j = p) \<and> a (X i j ?r)"
    using linked_iff[OF sat assms(4,5) r(1,2)] y by simp
  with y r(3) show "\<exists>r\<in>{start..start + T}. a (Y p r)
               \<and> (\<exists>(i, j)\<in>set (pairs n). (i = p \<or> j = p) \<and> a (X i j r))"
    by blast
qed

theorem idle_gap_windows_witness:
  "(2::int) \<le> 3 \<and> (0::int) \<le> 1 \<and> 1 < M 3 \<and> (0::int) \<le> 0 \<and> (0::int) < 3 \<and> (0::int) \<le> 1 \<and> 1 < M 3 - 1
     \<and> SumGe [Y 0 1, Y 0 2] 1 \<in> set (constraints (build_model 3 1))
     \<and> satisfies played_3 (build_model 3 1)
     \<and> (\<exists>r\<in>{1..2}. played_3 (Y 0 r)
           \<and> (\<exists>(i, j)\<in>set (pairs 3). (i = 0 \<or> j = 0) \<and> played_3 (X i j r)))"
proof -
  have M3: "M 3 = 3" by (simp add: M_def)
  have w: "[1..2] = [1, 2 :: int]" by code_simp
  show ?thesis
    using idle_gap_windows[of 3 1 0 1] played_3_sat_1 by (simp add: M3 w)
qed

section \<open>The search over the candidate bounds\<close>

lemma run_Some:
  assumes "run solve n tlim nw = (ms, Some (T, sched))"
  shows "0 \<le> T \<and> T < M n
       \<and> is_sat (status (answer solve tlim nw n T))
       \<and> (\<forall>T'\<in>{0..<T}. \<not> is_sat (status (answer solve tlim nw n T')))
       \<and> ms = map (build_model n) [0..T]
       \<and> sched = sort (extract_schedule n (Value (answer solve tlim nw n T)))"
proof -
  let ?ps = "solver_parameters tlim nw"
  have s: "search solve ?ps n (range_int (M n)) = (ms, Some (T, sched))"
    using assms by (simp add: run_def)
  then obtain pre post where split: "range_int (M n) = pre @ T # post"
    and pre: "\<forall>T'\<in>set pre. \<not> is_sat (status (solve ?ps (build_model n T')))"
    and sat: "is_sat (status (solve ?ps (build_model n T)))"
    using search_Some_split by blast
  have "T \<in> set (range_int (M n))" using split by simp
  then have T: "0 \<le> T" "T < M n" by (auto simp: set_range_int)
  have p: "pre = [0..T - 1]"
    using split upto_append_Cons unfolding range_int_def by blast
  have "search solve ?ps n (range_int (M n))
      = (map (build_model n) (pre @ [T]),
         Some (T, sort (extract_schedule n (Value (solve ?ps (build_model n T))))))"
    unfolding split
    by (rule search_finds[where solve = solve and ps = "?ps" and n = n and pre = pre and T = T, OF pre sat])
  with s have ms: "ms = map (build_model n) (pre @ [T])"
    and sc: "sched = sort (extract_schedule n (Value (solve ?ps (build_model n T))))" by simp_all
  have "pre @ [T] = [0..T]"
    using T(1) p by (simp add: upto_rec2)
  with ms have ms': "ms = map (build_model n) [0..T]" by (simp only:)
  have ball: "\<forall>T'\<in>{0..<T}. \<not> is_sat (status (answer solve tlim nw n T'))"
    using pre p by (auto simp: answer_def)
  show ?thesis
    using T ball sat sc ms' by (simp add: answer_def)
qed

lemma run_first_sat:
  assumes "0 \<le> T" "T < M n"
    and "is_sat (status (answer solve tlim nw n T))"
    and "\<forall>T'\<in>{0..<T}. \<not> is_sat (status (answer solve tlim nw n T'))"
  shows "run solve n tlim nw
      = (map (build_model n) [0..T],
         Some (T, sort (extract_schedule n (Value (answer solve tlim nw n T)))))"
proof -
  let ?ps = "solver_parameters tlim nw"
  have split: "range_int (M n) = [0..T - 1] @ T # [T + 1..M n - 1]"
    unfolding range_int_def using assms(1,2) by (intro upto_split3) auto
  have pre: "\<forall>T'\<in>set [0..T - 1]. \<not> is_sat (status (solve ?ps (build_model n T')))"
    using assms(4) by (auto simp: answer_def)
  have sat: "is_sat (status (solve ?ps (build_model n T)))"
    using assms(3) by (simp add: answer_def)
  have "[0..T - 1] @ [T] = [0..T]"
    using assms(1) by (simp add: upto_rec2)
  then show ?thesis
    unfolding run_def split
    using search_finds[where solve = solve and ps = "?ps" and n = n and pre = "[0..T - 1]"
        and T = T and post = "[T + 1..M n - 1]", OF pre sat]
    by (simp add: answer_def)
qed

lemma result_run:
  "schedule_round_robin solve n tlim nw = Some (T, sched) \<longleftrightarrow>
     run solve n tlim nw = (solver_calls solve n tlim nw, Some (T, sched))"
  by (cases "run solve n tlim nw") (simp add: schedule_round_robin_def solver_calls_def)

text \<open>
  What the loop does for every solver: the result is the first candidate below \<open>M\<close> that
  the solver answers with \<open>OPTIMAL\<close> or \<open>FEASIBLE\<close>, with the sorted schedule extracted
  from that answer, and the models passed to the solver are those of the candidates
  \<open>0, \<dots>, T\<close>, one per candidate.
\<close>

lemma search_first_sat:
  "(schedule_round_robin solve n time_limit_s num_workers = Some (T, sched) \<longleftrightarrow>
      0 \<le> T \<and> T < M n
    \<and> is_sat (status (answer solve time_limit_s num_workers n T))
    \<and> (\<forall>T'\<in>{0..<T}. \<not> is_sat (status (answer solve time_limit_s num_workers n T')))
    \<and> sched = sort (extract_schedule n (Value (answer solve time_limit_s num_workers n T))))
   \<and> (schedule_round_robin solve n time_limit_s num_workers = Some (T, sched) \<longrightarrow>
        solver_calls solve n time_limit_s num_workers = map (build_model n) [0..T])"
proof (intro conjI impI iffI; (elim conjE)?)
  assume r: "schedule_round_robin solve n time_limit_s num_workers = Some (T, sched)"
  note rs = run_Some[OF r[unfolded result_run]]
  from rs show "0 \<le> T" "T < M n" "is_sat (status (answer solve time_limit_s num_workers n T))"
    "\<forall>T'\<in>{0..<T}. \<not> is_sat (status (answer solve time_limit_s num_workers n T'))"
    "sched = sort (extract_schedule n (Value (answer solve time_limit_s num_workers n T)))"
    "solver_calls solve n time_limit_s num_workers = map (build_model n) [0..T]"
    by simp_all
next
  assume "0 \<le> T" "T < M n" "is_sat (status (answer solve time_limit_s num_workers n T))"
    "\<forall>T'\<in>{0..<T}. \<not> is_sat (status (answer solve time_limit_s num_workers n T'))"
    "sched = sort (extract_schedule n (Value (answer solve time_limit_s num_workers n T)))"
  then show "schedule_round_robin solve n time_limit_s num_workers = Some (T, sched)"
    using run_first_sat[of T n solve time_limit_s num_workers]
    by (simp add: schedule_round_robin_def)
qed

text \<open>
  When the answer for the returned candidate is sound and the candidate just below it was
  soundly answered \<open>INFEASIBLE\<close>, the returned candidate is the least feasible bound: by
  monotonicity no smaller bound is feasible either.
\<close>

lemma satisfies_mono:
  "T \<le> T' \<Longrightarrow> satisfies a (build_model n T) \<Longrightarrow> satisfies a (build_model n T')"
  using idle_time_mono[of T T' a n] by (simp add: satisfies_build_model)

lemma first_sat_minimal:
  assumes r: "schedule_round_robin solve n time_limit_s num_workers = Some (T, sched)"
    and sound: "sound_answer n T (answer solve time_limit_s num_workers n T)"
    and below: "T = 0 \<or>
        (status (answer solve time_limit_s num_workers n (T - 1)) = INFEASIBLE
         \<and> sound_answer n (T - 1) (answer solve time_limit_s num_workers n (T - 1)))"
  shows "(\<exists>a. satisfies a (build_model n T))
       \<and> (\<forall>T'\<in>{0..<T}. \<not> (\<exists>a. satisfies a (build_model n T')))"
proof
  note rs = run_Some[OF r[unfolded result_run]]
  show "\<exists>a. satisfies a (build_model n T)"
    using rs sound by (auto simp: sound_answer_def)
  show "\<forall>T'\<in>{0..<T}. \<not> (\<exists>a. satisfies a (build_model n T'))"
  proof (intro ballI notI)
    fix T' assume T': "T' \<in> {0..<T}" and ex: "\<exists>a. satisfies a (build_model n T')"
    then obtain a where a: "satisfies a (build_model n T')" by blast
    from T' have "T \<noteq> 0" by auto
    with below have unsat: "\<forall>a. \<not> satisfies a (build_model n (T - 1))"
      by (simp add: sound_answer_def)
    from T' have "T' \<le> T - 1" by simp
    from satisfies_mono[OF this a] unsat show False by blast
  qed
qed

lemma pairs_3: "pairs 3 = [(0, 1), (0, 2), (1, 2)]"
  by code_simp

lemma range_3: "range_int 3 = [0, 1, 2]" "range_int 1 = [0]"
  by code_simp+

lemma infeasible_3_0: "\<not> satisfies a (build_model 3 0)"
proof
  assume sat: "satisfies a (build_model 3 0)"
  have M3: "M 3 = 3" by (simp add: M_def)
  have y: "a (Y 0 0)" "a (Y 1 0)" "a (Y 2 0)"
    using sat by (simp_all add: satisfies_build_model idle_time_holds M3 range_3)
  have one: "length (filter (\<lambda>p. a (X (fst p) (snd p) 0)) (pairs 3)) = 1"
    using sat by (simp add: satisfies_build_model one_per_round_holds M3 range_3)
  have link: "\<forall>i\<in>set [0, 1, 2].
      int (length (filter (\<lambda>p. (fst p = i \<or> snd p = i) \<and> a (X (fst p) (snd p) 0)) (pairs 3)))
          = lit a (Y i 0)"
    using sat by (simp add: satisfies_build_model link_xy_holds M3 range_3)
  show False
    using y one link unfolding pairs_3 by (auto simp: lit_def split: if_splits)
qed

lemma min_3_result:
  "run (solver_min_3 :: nat solver) 3 (Some 30) 8
     = ([build_model 3 0, build_model 3 1], Some (1, [(1, 1, 2), (2, 1, 3), (3, 2, 3)]))"
  by code_simp

text \<open>
  Three participants: the bound 0 is infeasible and the bound 1 is feasible, and a solver
  that decides both candidates makes the search return 1.
\<close>

lemma three_participants_minimum:
  "schedule_round_robin (solver_min_3 :: nat solver) 3 (Some 30) 8
       = Some (1, [(1, 1, 2), (2, 1, 3), (3, 2, 3)])
   \<and> (\<exists>a. satisfies a (build_model 3 1)) \<and> \<not> (\<exists>a. satisfies a (build_model 3 0))"
proof -
  have "satisfies played_3 (build_model 3 1)" by code_simp
  then have "\<exists>a. satisfies a (build_model 3 1)" by (rule exI[of _ played_3])
  then show ?thesis
    using infeasible_3_0 by (simp add: schedule_round_robin_def min_3_result)
qed

text \<open>
  C1. The claim: for \<open>n \<ge> 2\<close> the search tries the candidates in increasing order from 0,
  below \<open>M\<close>, and returns the first one that the solver answers with a schedule, so that
  the returned \<open>T\<close> is the minimal feasible idle-gap bound. The code does not deliver the
  minimum: the status test passes over every answer that is not \<open>OPTIMAL\<close> or \<open>FEASIBLE\<close>,
  \<open>UNKNOWN\<close> included. For three participants and a solver that runs out of time on the
  candidates 0 and 1 and finds a correct schedule for the candidate 2, all three models are
  solved and the function returns the bound 2, although the bound 1 is feasible.
\<close>

theorem skipped_unknown_returns_non_minimal:
  "schedule_round_robin (solver_late_3 :: nat solver) 3 (Some 30) 8
       = Some (2, [(1, 1, 2), (2, 1, 3), (3, 2, 3)])
   \<and> solver_calls (solver_late_3 :: nat solver) 3 (Some 30) 8
       = [build_model 3 0, build_model 3 1, build_model 3 2]
   \<and> status (answer (solver_late_3 :: nat solver) (Some 30) 8 3 1) = UNKNOWN
   \<and> satisfies (Value (answer (solver_late_3 :: nat solver) (Some 30) 8 3 2)) (build_model 3 2)
   \<and> satisfies played_3 (build_model 3 1)
   \<and> (1::int) < 2"
  by code_simp

section \<open>Answers without a schedule, and inputs below two\<close>

lemma run_exhausted:
  assumes "\<forall>T\<in>set (range_int (M n)). \<not> is_sat (status (answer solve time_limit_s num_workers n T))"
  shows "run solve n time_limit_s num_workers = (map (build_model n) (range_int (M n)), None)"
proof -
  have "\<forall>T\<in>set (range_int (M n)).
      \<not> is_sat (status (solve (solver_parameters time_limit_s num_workers) (build_model n T)))"
    using assms by (simp add: answer_def)
  then show ?thesis
    unfolding run_def by (rule search_exhausts)
qed

text \<open>
  C4, as the code has it. The search has no inconclusive outcome. Whenever no candidate
  below \<open>M\<close> is answered \<open>OPTIMAL\<close> or \<open>FEASIBLE\<close>, whether the answers were \<open>UNKNOWN\<close>,
  \<open>INFEASIBLE\<close> or \<open>MODEL_INVALID\<close>, the result is \<open>None\<close>: the same result as with a
  solver that answers \<open>INFEASIBLE\<close> for every candidate.
\<close>

theorem no_inconclusive_outcome:
  "((\<forall>T\<in>set (range_int (M n)). \<not> is_sat (status (answer solve time_limit_s num_workers n T))) \<longrightarrow>
      schedule_round_robin solve n time_limit_s num_workers = None)
   \<and> ((\<forall>T\<in>set (range_int (M n)). \<not> is_sat (status (answer solve time_limit_s num_workers n T)))
      \<and> (\<forall>T\<in>set (range_int (M n)). status (answer solve' time_limit_s num_workers n T) = INFEASIBLE) \<longrightarrow>
      schedule_round_robin solve n time_limit_s num_workers
        = schedule_round_robin solve' n time_limit_s num_workers)"
proof (intro conjI impI)
  assume "\<forall>T\<in>set (range_int (M n)). \<not> is_sat (status (answer solve time_limit_s num_workers n T))"
  then show "schedule_round_robin solve n time_limit_s num_workers = None"
    by (simp add: schedule_round_robin_def run_exhausted)
next
  assume both: "(\<forall>T\<in>set (range_int (M n)). \<not> is_sat (status (answer solve time_limit_s num_workers n T)))
      \<and> (\<forall>T\<in>set (range_int (M n)). status (answer solve' time_limit_s num_workers n T) = INFEASIBLE)"
  then have "\<forall>T\<in>set (range_int (M n)). \<not> is_sat (status (answer solve' time_limit_s num_workers n T))"
    by (simp add: is_sat_def)
  then have "schedule_round_robin solve' n time_limit_s num_workers = None"
    by (simp add: schedule_round_robin_def run_exhausted)
  moreover have "schedule_round_robin solve n time_limit_s num_workers = None"
    using both by (simp add: schedule_round_robin_def run_exhausted)
  ultimately show "schedule_round_robin solve n time_limit_s num_workers
        = schedule_round_robin solve' n time_limit_s num_workers" by simp
qed

theorem no_inconclusive_outcome_witness:
  "status (answer (solver_mixed_3 :: nat solver) (Some 30) 8 3 0) = INFEASIBLE
   \<and> status (answer (solver_mixed_3 :: nat solver) (Some 30) 8 3 1) = UNKNOWN
   \<and> status (answer (solver_mixed_3 :: nat solver) (Some 30) 8 3 2) = MODEL_INVALID
   \<and> schedule_round_robin (solver_mixed_3 :: nat solver) 3 (Some 30) 8 = None
   \<and> schedule_round_robin (solver_mixed_3 :: nat solver) 3 (Some 30) 8
       = schedule_round_robin (solver_always INFEASIBLE :: nat solver) 3 (Some 30) 8"
proof -
  let ?s = "solver_mixed_3 :: nat solver"
  have r: "range_int (M 3) = [0, 1, 2]" by code_simp
  have st: "status (answer ?s (Some 30) 8 3 0) = INFEASIBLE"
    "status (answer ?s (Some 30) 8 3 1) = UNKNOWN"
    "status (answer ?s (Some 30) 8 3 2) = MODEL_INVALID"
    by code_simp+
  have inf: "status (answer (solver_always INFEASIBLE :: nat solver) (Some 30) 8 3 T) = INFEASIBLE" for T
    by (simp add: answer_def solver_always_def)
  have h1: "\<forall>T\<in>set (range_int (M 3)). \<not> is_sat (status (answer ?s (Some 30) 8 3 T))"
    using st by (simp add: r is_sat_def)
  have h2: "\<forall>T\<in>set (range_int (M 3)).
      status (answer (solver_always INFEASIBLE :: nat solver) (Some 30) 8 3 T) = INFEASIBLE"
    using inf by simp
  note th = no_inconclusive_outcome[of 3 ?s "Some 30" 8 "solver_always INFEASIBLE :: nat solver"]
  from th h1 have c1: "schedule_round_robin ?s 3 (Some 30) 8 = None"
    by blast
  from th h1 h2 have c2: "schedule_round_robin ?s 3 (Some 30) 8
       = schedule_round_robin (solver_always INFEASIBLE :: nat solver) 3 (Some 30) 8"
    by blast
  from st c1 c2 show ?thesis by blast
qed

text \<open>
  A solver that always answers \<open>UNKNOWN\<close> and one that always answers \<open>INFEASIBLE\<close> lead to
  the same result \<open>None\<close>, and the \<open>UNKNOWN\<close> for the candidate 0 did not end the search:
  all three models were passed to the solver.
\<close>

theorem unknown_not_reported_counterexample:
  "schedule_round_robin (solver_always UNKNOWN :: nat solver) 3 (Some 30) 8 = None
   \<and> schedule_round_robin (solver_always INFEASIBLE :: nat solver) 3 (Some 30) 8 = None
   \<and> solver_calls (solver_always UNKNOWN :: nat solver) 3 (Some 30) 8
       = [build_model 3 0, build_model 3 1, build_model 3 2]"
  by code_simp

lemma M_negative: "n < 0 \<Longrightarrow> 1 \<le> M n"
proof -
  assume n: "n < 0"
  have "1 * 2 \<le> (- n) * (1 - n)"
    using n by (intro mult_mono) auto
  then have "2 \<le> n * (n - 1)" by (simp add: algebra_simps)
  then show ?thesis unfolding M_def by simp
qed

lemma search_Cons_calls: "\<exists>ms. fst (search solve ps n (T # Ts)) = build_model n T # ms"
  by (simp add: Let_def split: prod.splits)

text \<open>
  C5, as the code has it. An input \<open>n < 2\<close> is not rejected. For \<open>n = 0\<close> and \<open>n = 1\<close> no
  model is built, the solver is not called and the result is \<open>None\<close>, the value that the
  function also returns when no candidate was answered with a schedule. For a negative
  \<open>n\<close> the round count \<open>M\<close> is at least 1 and the model of the candidate 0 is built and
  passed to the solver.
\<close>

theorem small_n_not_rejected:
  assumes "n < 2"
  shows "(0 \<le> n \<longrightarrow> run solve n time_limit_s num_workers = ([], None))
       \<and> (n < 0 \<longrightarrow> 1 \<le> M n
            \<and> (\<exists>ms. solver_calls solve n time_limit_s num_workers = build_model n 0 # ms))"
proof (intro conjI impI)
  show "run solve n time_limit_s num_workers = ([], None)" if "0 \<le> n"
    using that assms by (rule run_small)
  assume n: "n < 0"
  then show M: "1 \<le> M n" by (rule M_negative)
  then have "range_int (M n) = 0 # [1..M n - 1]"
    unfolding range_int_def by (subst upto_rec1) simp_all
  then show "\<exists>ms. solver_calls solve n time_limit_s num_workers = build_model n 0 # ms"
    unfolding solver_calls_def run_def using search_Cons_calls by simp
qed

theorem small_n_not_rejected_witness:
  "(0::int) < 2 \<and> (- 1::int) < 2
   \<and> run (solver_always INFEASIBLE :: nat solver) 0 (Some 30) 8 = ([], None)
   \<and> 1 \<le> M (- 1)
   \<and> (\<exists>ms. solver_calls (solver_always INFEASIBLE :: nat solver) (- 1) (Some 30) 8
              = build_model (- 1) 0 # ms)"
  using small_n_not_rejected[of 0 "solver_always INFEASIBLE :: nat solver" "Some 30" 8]
    small_n_not_rejected[of "- 1" "solver_always INFEASIBLE :: nat solver" "Some 30" 8]
  by simp

text \<open>
  The inputs 0 and 1 give the result of an exhausted search on three participants, and
  the input \<open>- 1\<close> reaches the solver.
\<close>

theorem invalid_input_counterexample:
  "schedule_round_robin (solver_always INFEASIBLE :: nat solver) 0 (Some 30) 8 = None
   \<and> schedule_round_robin (solver_always INFEASIBLE :: nat solver) 1 (Some 30) 8 = None
   \<and> schedule_round_robin (solver_always INFEASIBLE :: nat solver) 3 (Some 30) 8 = None
   \<and> solver_calls (solver_always INFEASIBLE :: nat solver) (- 1) (Some 30) 8 = [build_model (- 1) 0]"
  by code_simp

section \<open>The returned schedule\<close>

lemma distinct_map_snd_unique:
  "distinct (map snd xs) \<Longrightarrow> (a, m) \<in> set xs \<Longrightarrow> (b, m) \<in> set xs \<Longrightarrow> a = b"
  by (induction xs) force+

lemma match_once_ex1:
  assumes "satisfies a (build_model n T)" and "(i, j) \<in> set (pairs n)"
  shows "\<exists>!r. r \<in> {0..<M n} \<and> a (X i j r)"
proof -
  have "length (filter (\<lambda>r. a (X i j r)) (range_int (M n))) = 1"
    using assms by (force simp: satisfies_build_model match_once_holds)
  then show ?thesis
    using length_filter_1_iff[OF distinct_range_int, of "\<lambda>r. a (X i j r)" "M n"]
    by (simp add: set_range_int)
qed

lemma one_per_round_ex1:
  assumes "satisfies a (build_model n T)" and "r \<in> {0..<M n}"
  shows "\<exists>!m. m \<in> set (pairs n) \<and> a (X (fst m) (snd m) r)"
proof -
  have "length (filter (\<lambda>m. a (X (fst m) (snd m) r)) (pairs n)) = 1"
    using assms by (simp add: satisfies_build_model one_per_round_holds set_range_int)
  then show ?thesis
    using length_filter_1_iff[OF distinct_pairs, of "\<lambda>m. a (X (fst m) (snd m) r)" n]
    by simp
qed

text \<open>
  C3. For \<open>n \<ge> 2\<close>, a schedule extracted from a solver answer that satisfies the model is
  a bijection between the \<open>M = n (n - 1) / 2\<close> matches and the \<open>M\<close> rounds. The pair list has
  \<open>M\<close> distinct entries, the pairs \<open>i < j\<close> below \<open>n\<close>. The returned list has \<open>M\<close> entries,
  its rounds are \<open>1, \<dots>, M\<close> in this order, its matches are the pairs, each once (with the
  participants numbered from 1), so every match has exactly one round and every round
  exactly one match; the same holds for the values of \<open>x\<close> in the answer.
\<close>

theorem schedule_bijection:
  assumes "2 \<le> n"
    and "schedule_round_robin solve n time_limit_s num_workers = Some (T, sched)"
    and "satisfies (Value (answer solve time_limit_s num_workers n T)) (build_model n T)"
  shows "length (pairs n) = nat (M n) \<and> distinct (pairs n)
       \<and> set (pairs n) = {(i, j). 0 \<le> i \<and> i < j \<and> j < n}
       \<and> length sched = nat (M n)
       \<and> map fst sched = [1..M n]
       \<and> mset (map snd sched) = mset (map (\<lambda>(i, j). (i + 1, j + 1)) (pairs n))
       \<and> distinct (map snd sched)
       \<and> (\<forall>(i, j)\<in>set (pairs n). \<exists>!r. (r, i + 1, j + 1) \<in> set sched)
       \<and> (\<forall>r\<in>{1..M n}. \<exists>!m. (r, m) \<in> set sched)
       \<and> (\<forall>(i, j)\<in>set (pairs n).
            \<exists>!r. r \<in> {0..<M n} \<and> Value (answer solve time_limit_s num_workers n T) (X i j r))
       \<and> (\<forall>r\<in>{0..<M n}.
            \<exists>!m. m \<in> set (pairs n)
               \<and> Value (answer solve time_limit_s num_workers n T) (X (fst m) (snd m) r))"
proof -
  let ?a = "Value (answer solve time_limit_s num_workers n T)"
  note sat = assms(3)
  have sched: "sched = sort (extract_schedule n ?a)"
    using run_Some[OF assms(2)[unfolded result_run]] by simp
  have lp: "length (pairs n) = nat (M n)"
    using length_pairs[of n] assms(1) by simp
  have rounds: "map fst sched = [1..M n]"
    unfolding sched by (rule sorted_schedule_rounds[OF sat])
  have ps: "mset (map snd sched) = mset (map (\<lambda>p. (fst p + 1, snd p + 1)) (pairs n))"
    unfolding sched by (rule sorted_schedule_pairs[OF sat])
  have "(\<lambda>(i, j). (i + 1, j + 1)) = (\<lambda>p :: int \<times> int. (fst p + 1, snd p + 1))"
    by (rule ext) (simp add: case_prod_beta)
  with ps have ps': "mset (map snd sched) = mset (map (\<lambda>(i, j). (i + 1, j + 1)) (pairs n))"
    by (simp only:)
  have "distinct (map (\<lambda>p. (fst p + 1, snd p + 1)) (pairs n))"
    by (simp add: distinct_map distinct_pairs inj_on_def prod_eq_iff)
  then have dsnd: "distinct (map snd sched)"
    using ps mset_eq_imp_distinct_iff by blast
  have len: "length sched = nat (M n)"
    using arg_cong[OF rounds, of length] by simp
  have dfst: "distinct (map fst sched)"
    unfolding rounds by simp
  have m_ex1: "\<exists>!r. (r, i + 1, j + 1) \<in> set sched" if "(i, j) \<in> set (pairs n)" for i j
  proof -
    have "(i + 1, j + 1) \<in> set (map (\<lambda>p. (fst p + 1, snd p + 1)) (pairs n))"
      using that by force
    then have "(i + 1, j + 1) \<in> set (map snd sched)"
      using ps mset_eq_setD by blast
    then obtain r where "(r, i + 1, j + 1) \<in> set sched" by auto
    then show ?thesis
      using distinct_map_snd_unique[OF dsnd] by blast
  qed
  have r_ex1: "\<exists>!m. (r, m) \<in> set sched" if "r \<in> {1..M n}" for r
  proof -
    have "r \<in> set (map fst sched)" unfolding rounds using that by simp
    then obtain m where "(r, m) \<in> set sched" by auto
    then show ?thesis
      using eq_key_imp_eq_value[OF dfst] by blast
  qed
  have c8: "\<forall>(i, j)\<in>set (pairs n). \<exists>!r. (r, i + 1, j + 1) \<in> set sched"
  proof (rule ballI)
    fix p assume "p \<in> set (pairs n)"
    then show "case p of (i, j) \<Rightarrow> \<exists>!r. (r, i + 1, j + 1) \<in> set sched"
      using m_ex1[of "fst p" "snd p"] by (simp add: case_prod_beta)
  qed
  have c9: "\<forall>r\<in>{1..M n}. \<exists>!m. (r, m) \<in> set sched"
    using r_ex1 by blast
  have c10: "\<forall>(i, j)\<in>set (pairs n). \<exists>!r. r \<in> {0..<M n} \<and> ?a (X i j r)"
  proof (rule ballI)
    fix p assume "p \<in> set (pairs n)"
    then show "case p of (i, j) \<Rightarrow> \<exists>!r. r \<in> {0..<M n} \<and> ?a (X i j r)"
      using match_once_ex1[OF sat, of "fst p" "snd p"] by (simp add: case_prod_beta)
  qed
  have c11: "\<forall>r\<in>{0..<M n}. \<exists>!m. m \<in> set (pairs n) \<and> ?a (X (fst m) (snd m) r)"
    using one_per_round_ex1[OF sat] by blast
  from lp distinct_pairs set_pairs len rounds ps' dsnd c8 c9 c10 c11
  show ?thesis by (intro conjI)
qed

theorem schedule_bijection_witness:
  "(2::int) \<le> 3
   \<and> schedule_round_robin (solver_min_3 :: nat solver) 3 (Some 30) 8
       = Some (1, [(1, 1, 2), (2, 1, 3), (3, 2, 3)])
   \<and> satisfies (Value (answer (solver_min_3 :: nat solver) (Some 30) 8 3 1)) (build_model 3 1)
   \<and> length (pairs 3) = nat (M 3)
   \<and> length [(1, 1, 2), (2, 1, 3), (3, 2, 3 :: int) :: int \<times> int \<times> int] = nat (M 3)
   \<and> map fst [(1, 1, 2), (2, 1, 3), (3, 2, 3 :: int) :: int \<times> int \<times> int] = [1..M 3]
   \<and> distinct (map snd [(1, 1, 2), (2, 1, 3), (3, 2, 3 :: int) :: int \<times> int \<times> int])"
proof -
  let ?s = "solver_min_3 :: nat solver"
  have res: "schedule_round_robin ?s 3 (Some 30) 8 = Some (1, [(1, 1, 2), (2, 1, 3), (3, 2, 3)])"
    by (simp add: schedule_round_robin_def min_3_result)
  have sat: "satisfies (Value (answer ?s (Some 30) 8 3 1)) (build_model 3 1)"
    by (simp add: answer_def solver_min_3_def played_3_sat_1)
  show ?thesis
    using schedule_bijection[OF _ res sat] res sat by simp
qed

lemma set_extract_schedule:
  "set (extract_schedule n a)
     = {(r + 1, i + 1, j + 1) |i j r. (i, j) \<in> set (pairs n) \<and> r \<in> {0..<M n} \<and> a (X i j r)}"
  unfolding extract_schedule_alt by (force simp: set_range_int)

lemma pairs_2: "pairs 2 = [(0, 1)]"
  by code_simp

text \<open>
  C6, as the code has it. The returned triples are 1-based: the code adds 1 to the round
  and to both participants. Every triple \<open>(r, a, b)\<close> has \<open>1 \<le> r \<le> M\<close> and
  \<open>1 \<le> a < b \<le> n\<close>, and for \<open>n = 2\<close> a correct solver answer gives \<open>T = 0\<close> with the
  schedule \<open>[(1, 1, 2)]\<close>.
\<close>

theorem schedule_one_based:
  assumes "2 \<le> n"
    and "schedule_round_robin solve n time_limit_s num_workers = Some (T, sched)"
  shows "(\<forall>(r, a, b)\<in>set sched. 1 \<le> r \<and> r \<le> M n \<and> 1 \<le> a \<and> a < b \<and> b \<le> n)
       \<and> (n = 2 \<and> satisfies (Value (answer solve time_limit_s num_workers n T)) (build_model n T) \<longrightarrow>
            T = 0 \<and> sched = [(1, 1, 2)])"
proof (intro conjI impI)
  let ?a = "Value (answer solve time_limit_s num_workers n T)"
  note rs = run_Some[OF assms(2)[unfolded result_run]]
  have sched: "sched = sort (extract_schedule n ?a)"
    using rs by simp
  show "\<forall>(r, a, b)\<in>set sched. 1 \<le> r \<and> r \<le> M n \<and> 1 \<le> a \<and> a < b \<and> b \<le> n"
    unfolding sched by (auto simp: set_extract_schedule set_pairs)
  assume two: "n = 2 \<and> satisfies ?a (build_model n T)"
  from two have n: "n = 2" by (rule conjunct1)
  from two have sat: "satisfies ?a (build_model n T)" by (rule conjunct2)
  have M2: "M n = 1" using n by (simp add: M_def)
  show "T = 0" using rs M2 by simp
  have rounds: "map fst sched = [1]"
    using sorted_schedule_rounds[OF sat] sched M2 by simp
  then obtain x where x: "sched = [x]"
    by (cases sched) auto
  have "mset (map snd sched) = {#(1, 2)#}"
    using sorted_schedule_pairs[OF sat] sched n by (simp add: pairs_2)
  with x rounds have "fst x = 1" "snd x = (1, 2)" by simp_all
  then have "x = (1, 1, 2)" by (simp add: prod_eq_iff)
  with x show "sched = [(1, 1, 2)]" by simp
qed

lemma all_true_result:
  "schedule_round_robin (solver_all_true :: nat solver) 2 (Some 30) 8 = Some (0, [(1, 1, 2)])"
  by code_simp

lemma all_true_sat:
  "satisfies (Value (answer (solver_all_true :: nat solver) (Some 30) 8 2 0)) (build_model 2 0)"
  by code_simp

theorem schedule_one_based_witness:
  "(2::int) \<le> 2
   \<and> schedule_round_robin (solver_all_true :: nat solver) 2 (Some 30) 8 = Some (0, [(1, 1, 2)])
   \<and> satisfies (Value (answer (solver_all_true :: nat solver) (Some 30) 8 2 0)) (build_model 2 0)
   \<and> (1::int) \<le> M 2 \<and> (1::int) < 2 \<and> (2::int) \<le> 2"
  using schedule_one_based[OF _ all_true_result] all_true_result all_true_sat by simp

text \<open>
  For two participants and a correct solver answer the result is the 1-based triple
  \<open>(1, 1, 2)\<close>, not \<open>(0, 0, 1)\<close>: the second participant is numbered \<open>n\<close> itself.
\<close>

theorem zero_based_counterexample:
  "schedule_round_robin (solver_all_true :: nat solver) 2 (Some 30) 8 = Some (0, [(1, 1, 2)])
   \<and> satisfies (Value (answer (solver_all_true :: nat solver) (Some 30) 8 2 0)) (build_model 2 0)
   \<and> schedule_round_robin (solver_all_true :: nat solver) 2 (Some 30) 8 \<noteq> Some (0, [(0, 0, 1)])"
  using all_true_result all_true_sat by simp

end
